theory Spec2Isabelle
  imports Main "HOL-Library.Signed_Division"
begin

section \<open>Values and arrays\<close>

text \<open>
  A square of the board holds \<^verbatim>\<open>null\<close>, \<^verbatim>\<open>'X'\<close> or \<^verbatim>\<open>'O'\<close>. Reading a JavaScript
  array outside its length (or at a hole left by a write past its end) gives
  \<^verbatim>\<open>undefined\<close>, so the values a read can produce have a fourth case.
\<close>

datatype player = PX | PO

datatype cell = Null | Undefined | Mark player

type_synonym board = "cell list"

text \<open>\<^verbatim>\<open>squares[i]\<close> for a non-negative integer index.\<close>

definition get_cell :: "board \<Rightarrow> nat \<Rightarrow> cell" where
  "get_cell squares i = (if i < length squares then squares ! i else Undefined)"

text \<open>Truthiness of a cell value: only the two non-empty strings are truthy.\<close>

definition truthy :: "cell \<Rightarrow> bool" where
  "truthy c = (case c of Mark p \<Rightarrow> True | Null \<Rightarrow> False | Undefined \<Rightarrow> False)"

text \<open>
  \<^verbatim>\<open>next[index] = v\<close>: inside the array the element is replaced; past its end
  JavaScript extends the array, leaving holes (which read as \<^verbatim>\<open>undefined\<close>).
\<close>

definition array_set :: "board \<Rightarrow> nat \<Rightarrow> cell \<Rightarrow> board" where
  "array_set squares i v =
     (if i < length squares then squares[i := v]
      else squares @ replicate (i - length squares) Undefined @ [v])"

text \<open>\<^verbatim>\<open>arr[i]\<close> for an arbitrary integer \<open>i\<close>; \<open>None\<close> is \<^verbatim>\<open>undefined\<close>.\<close>

definition js_index :: "'a list \<Rightarrow> int \<Rightarrow> 'a option" where
  "js_index arr i = (if 0 \<le> i \<and> i < int (length arr) then Some (arr ! nat i) else None)"

text \<open>\<^verbatim>\<open>arr.slice(0, e)\<close>: a negative end counts from the end of the array.\<close>

definition slice0 :: "'a list \<Rightarrow> int \<Rightarrow> 'a list" where
  "slice0 arr e = (if e < 0 then take (nat (int (length arr) + e)) arr else take (nat e) arr)"

section \<open>Winner calculation\<close>

definition LINES :: "(nat \<times> nat \<times> nat) list" where
  "LINES = [(0, 1, 2), (3, 4, 5), (6, 7, 8),
            (0, 3, 6), (1, 4, 7), (2, 5, 8),
            (0, 4, 8), (2, 4, 6)]"

record winner_info =
  winner :: cell
  line :: "nat list option"

text \<open>The \<^verbatim>\<open>for (const [a, b, c] of LINES)\<close> loop of \<^verbatim>\<open>calculateWinner\<close>, over the lines still to visit.\<close>

fun calculateWinner_loop :: "board \<Rightarrow> (nat \<times> nat \<times> nat) list \<Rightarrow> winner_info" where
  "calculateWinner_loop squares [] = \<lparr>winner = Null, line = None\<rparr>"
| "calculateWinner_loop squares ((a, b, c) # rest) =
     (if truthy (get_cell squares a) \<and> get_cell squares a = get_cell squares b
         \<and> get_cell squares a = get_cell squares c
      then \<lparr>winner = get_cell squares a, line = Some [a, b, c]\<rparr>
      else calculateWinner_loop squares rest)"

definition calculateWinner :: "board \<Rightarrow> winner_info" where
  "calculateWinner squares = calculateWinner_loop squares LINES"

section \<open>The simple AI\<close>

text \<open>The loop of \<^verbatim>\<open>findWinningMove\<close>; \<open>-1\<close> when no line qualifies.\<close>

fun findWinningMove_loop :: "board \<Rightarrow> player \<Rightarrow> (nat \<times> nat \<times> nat) list \<Rightarrow> int" where
  "findWinningMove_loop squares p [] = - 1"
| "findWinningMove_loop squares p ((a, b, c) # rest) =
     (let ln = [get_cell squares a, get_cell squares b, get_cell squares c];
          filledByPlayer = length (filter (\<lambda>v. v = Mark p) ln);
          emptyIndices = filter (\<lambda>idx. get_cell squares idx = Null) [a, b, c]
      in if filledByPlayer = 2 \<and> length emptyIndices = 1 then int (hd emptyIndices)
         else findWinningMove_loop squares p rest)"

definition findWinningMove :: "board \<Rightarrow> player \<Rightarrow> int" where
  "findWinningMove squares p = findWinningMove_loop squares p LINES"

text \<open>
  \<^verbatim>\<open>randomPick(arr) = arr[Math.floor(Math.random() * arr.length)]\<close>. The random source
  is not part of the program; the draw is the extra argument \<open>r\<close>. For a non-empty array
  \<^verbatim>\<open>Math.floor(Math.random() * n)\<close> ranges over exactly \<open>0..n-1\<close>, which is the range of
  \<open>r mod n\<close>. The function is only ever called on a non-empty array (both call sites test
  \<^verbatim>\<open>arr.length\<close> first).
\<close>

definition randomPick :: "nat list \<Rightarrow> nat \<Rightarrow> nat" where
  "randomPick arr r = arr ! (r mod length arr)"

definition chooseBestMove :: "board \<Rightarrow> player \<Rightarrow> nat \<Rightarrow> int" where
  "chooseBestMove squares p r =
     (let opponent = (if p = PX then PO else PX);
          winMove = findWinningMove squares p
      in if winMove \<noteq> - 1 then winMove
         else let blockMove = findWinningMove squares opponent
           in if blockMove \<noteq> - 1 then blockMove
              else if \<not> truthy (get_cell squares 4) then 4
              else let corners = filter (\<lambda>i. \<not> truthy (get_cell squares i)) [0, 2, 6, 8]
                in if corners \<noteq> [] then int (randomPick corners r)
                   else let sides = filter (\<lambda>i. \<not> truthy (get_cell squares i)) [1, 3, 5, 7]
                     in if sides \<noteq> [] then int (randomPick sides r)
                        else - 1)"

section \<open>The Game component\<close>

datatype game_mode = HUMAN | CPU

record score_board =
  scoreX :: nat
  scoreO :: nat
  draws :: nat

text \<open>
  The six state variables of \<^verbatim>\<open>Game\<close>. The last field is not a variable of the source: it
  is the dependency array \<^verbatim>\<open>[gameOver, winnerInfo.winner]\<close> of the score effect as of the
  last committed render, which React keeps in order to decide whether the effect runs again.
\<close>

record game =
  history :: "board list"
  stepNumber :: int
  xIsNext :: bool
  mode :: game_mode
  startingPlayer :: player
  scores :: score_board
  scoreDeps :: "bool \<times> cell"

text \<open>What a render derives from the state (lines 65 to 71 of App.js).\<close>

record view =
  current :: board
  winnerInfo :: winner_info
  isBoardFull :: bool
  gameOver :: bool
  isCpuTurn :: bool

datatype error = TypeError

text \<open>
  A render. When \<^verbatim>\<open>history[stepNumber]\<close> is \<^verbatim>\<open>undefined\<close>, \<^verbatim>\<open>calculateWinner(current)\<close>
  reads a property of \<^verbatim>\<open>undefined\<close> and throws.
\<close>

definition render :: "game \<Rightarrow> error + view" where
  "render g =
     (case js_index (history g) (stepNumber g) of
        None \<Rightarrow> Inl TypeError
      | Some cur \<Rightarrow>
          let wi = calculateWinner cur;
              full = list_all (\<lambda>c. c \<noteq> Null) cur;
              over = (winner wi \<noteq> Null \<or> full);
              cpu = (mode g = CPU \<and> \<not> over \<and>
                     ((startingPlayer g = PO \<and> xIsNext g) \<or> (startingPlayer g = PX \<and> \<not> xIsNext g)))
          in Inr \<lparr>current = cur, winnerInfo = wi, isBoardFull = full, gameOver = over,
                  isCpuTurn = cpu\<rparr>)"

text \<open>\<^verbatim>\<open>nextPlayer = xIsNext ? 'X' : 'O'\<close>, the mark the next move places.\<close>

definition nextPlayer :: "game \<Rightarrow> player" where
  "nextPlayer g = (if xIsNext g then PX else PO)"

text \<open>
  The handlers are closures of a render, so a handler exists only where the render
  succeeded; where it threw, the handler's result is that error.
\<close>

definition handlePlay :: "game \<Rightarrow> nat \<Rightarrow> error + game" where
  "handlePlay g index =
     (case render g of
        Inl e \<Rightarrow> Inl e
      | Inr v \<Rightarrow>
          if truthy (get_cell (current v) index) \<or> gameOver v then Inr g
          else let next = array_set (current v) index (Mark (if xIsNext g then PX else PO));
                   newHistory = slice0 (history g) (stepNumber g + 1) @ [next]
               in Inr (g\<lparr>history := newHistory,
                         stepNumber := int (length newHistory) - 1,
                         xIsNext := \<not> xIsNext g\<rparr>))"

definition jumpTo :: "game \<Rightarrow> int \<Rightarrow> game" where
  "jumpTo g step =
     g\<lparr>stepNumber := step,
       xIsNext := (if step smod 2 = 0 then startingPlayer g = PX else startingPlayer g \<noteq> PX)\<rparr>"

definition startNewRound :: "game \<Rightarrow> player \<Rightarrow> game" where
  "startNewRound g nextStarter =
     g\<lparr>history := [replicate 9 Null],
       stepNumber := 0,
       xIsNext := (nextStarter = PX),
       startingPlayer := nextStarter\<rparr>"

definition resetMatch :: "game \<Rightarrow> game" where
  "resetMatch g = startNewRound (g\<lparr>scores := \<lparr>scoreX = 0, scoreO = 0, draws = 0\<rparr>\<rparr>) PX"

definition setMode :: "game \<Rightarrow> game_mode \<Rightarrow> game" where
  "setMode g m = g\<lparr>mode := m\<rparr>"

text \<open>The \<^verbatim>\<open>disabled\<close> property the board is rendered with (line 168).\<close>

definition boardDisabled :: "game \<Rightarrow> view \<Rightarrow> bool" where
  "boardDisabled g v =
     (gameOver v \<or> (mode g = CPU \<and> \<not> isCpuTurn v \<and>
        ((startingPlayer g = PX \<and> \<not> xIsNext g) \<or> (startingPlayer g = PO \<and> xIsNext g))))"

text \<open>
  A click on square \<open>i\<close>. The board renders one button per element of \<^verbatim>\<open>current\<close>; a
  button is disabled when the board is or when its value is not \<^verbatim>\<open>null\<close>, and a
  disabled button does not call \<^verbatim>\<open>onPlay\<close>.
\<close>

definition clickSquare :: "game \<Rightarrow> nat \<Rightarrow> error + game" where
  "clickSquare g i =
     (case render g of
        Inl e \<Rightarrow> Inl e
      | Inr v \<Rightarrow>
          if i < length (current v) \<and> \<not> (boardDisabled g v \<or> get_cell (current v) i \<noteq> Null)
          then handlePlay g i else Inr g)"

text \<open>
  The timer of the CPU effect firing: a timer is pending exactly while \<^verbatim>\<open>isCpuTurn\<close>
  holds (the effect's cleanup clears it when the dependencies change).
\<close>

definition cpuTimeout :: "game \<Rightarrow> nat \<Rightarrow> error + game" where
  "cpuTimeout g r =
     (case render g of
        Inl e \<Rightarrow> Inl e
      | Inr v \<Rightarrow>
          if isCpuTurn v
          then let cpuMove = chooseBestMove (current v) (if xIsNext g then PX else PO) r
               in if cpuMove \<noteq> - 1 then handlePlay g (nat cpuMove) else Inr g
          else Inr g)"

text \<open>
  The \<^verbatim>\<open>History\<close> component (lines 310 to 330) renders one button per entry of
  \<^verbatim>\<open>history\<close>: \<^verbatim>\<open>history.map((_, move) => ...)\<close>, and the button of entry \<open>move\<close>
  calls \<^verbatim>\<open>onJump(move)\<close>, which is \<^verbatim>\<open>jumpTo\<close>. These are the steps the buttons issue.
\<close>

definition historyMoves :: "game \<Rightarrow> nat list" where
  "historyMoves g = [0 ..< length (history g)]"

text \<open>A click on the history button of entry \<open>move\<close>; there is no button for any other number.\<close>

definition clickHistory :: "game \<Rightarrow> nat \<Rightarrow> error + game" where
  "clickHistory g move =
     (case render g of
        Inl e \<Rightarrow> Inl e
      | Inr v \<Rightarrow>
          if move \<in> set (historyMoves g) then Inr (jumpTo g (int move)) else Inr g)"

text \<open>The body of the score effect (lines 132 to 137).\<close>

definition scoreEffect :: "view \<Rightarrow> game \<Rightarrow> game" where
  "scoreEffect v g =
     (if \<not> gameOver v then g
      else let prev = scores g
           in if winner (winnerInfo v) = Mark PX then g\<lparr>scores := prev\<lparr>scoreX := scoreX prev + 1\<rparr>\<rparr>
              else if winner (winnerInfo v) = Mark PO then g\<lparr>scores := prev\<lparr>scoreO := scoreO prev + 1\<rparr>\<rparr>
              else g\<lparr>scores := prev\<lparr>draws := draws prev + 1\<rparr>\<rparr>)"

text \<open>
  Committing a state: the component renders, and the score effect runs if one of its
  dependencies differs from the last committed render's. The state updates of one handler
  call are committed together; the dependencies of the score effect are derived from
  \<^verbatim>\<open>history\<close> and \<^verbatim>\<open>stepNumber\<close> alone, and the effect writes \<^verbatim>\<open>scores\<close> alone, so
  the render that follows its own update finds the dependencies unchanged.
\<close>

definition commit :: "game \<Rightarrow> error + game" where
  "commit g =
     (case render g of
        Inl e \<Rightarrow> Inl e
      | Inr v \<Rightarrow>
          let deps = (gameOver v, winner (winnerInfo v))
          in if deps = scoreDeps g then Inr g
             else Inr ((scoreEffect v g)\<lparr>scoreDeps := deps\<rparr>))"

text \<open>
  The events the component reacts to: the public handlers called directly, the clicks on
  the rendered buttons, and the CPU timer.
\<close>

datatype event =
    Play nat
  | Click nat
  | CpuTimeout nat
  | Jump int
  | NewRound player
  | SwapStarter
  | ResetMatch
  | SetMode game_mode

definition handler :: "event \<Rightarrow> game \<Rightarrow> error + game" where
  "handler e g =
     (case e of
        Play i \<Rightarrow> handlePlay g i
      | Click i \<Rightarrow> clickSquare g i
      | CpuTimeout r \<Rightarrow> cpuTimeout g r
      | Jump step \<Rightarrow> Inr (jumpTo g step)
      | NewRound s \<Rightarrow> Inr (startNewRound g s)
      | SwapStarter \<Rightarrow> Inr (startNewRound g (if startingPlayer g = PX then PO else PX))
      | ResetMatch \<Rightarrow> Inr (resetMatch g)
      | SetMode m \<Rightarrow> Inr (setMode g m))"

definition fire :: "event \<Rightarrow> game \<Rightarrow> error + game" where
  "fire e g = (case handler e g of Inl err \<Rightarrow> Inl err | Inr g' \<Rightarrow> commit g')"

fun run :: "event list \<Rightarrow> game \<Rightarrow> error + game" where
  "run [] g = Inr g"
| "run (e # es) g = (case fire e g of Inl err \<Rightarrow> Inl err | Inr g' \<Rightarrow> run es g')"

text \<open>The state after the component has mounted (the score effect ran once, with \<^verbatim>\<open>gameOver\<close> false).\<close>

definition init :: game where
  "init = \<lparr>history = [replicate 9 Null], stepNumber = 0, xIsNext = True, mode = HUMAN,
            startingPlayer = PX, scores = \<lparr>scoreX = 0, scoreO = 0, draws = 0\<rparr>,
            scoreDeps = (False, Null)\<rparr>"

section \<open>The specification's words\<close>

text \<open>
  A board of the specification: exactly nine cells, each Empty, X or O.
\<close>

definition wf_board :: "board \<Rightarrow> bool" where
  "wf_board squares = (length squares = 9 \<and> list_all (\<lambda>c. c \<noteq> Undefined) squares)"

text \<open>A triple whose three cells are non-Empty and identical.\<close>

definition complete_line :: "board \<Rightarrow> nat \<times> nat \<times> nat \<Rightarrow> bool" where
  "complete_line squares l =
     (case l of (a, b, c) \<Rightarrow>
        (case get_cell squares a of
           Mark m \<Rightarrow> get_cell squares b = Mark m \<and> get_cell squares c = Mark m
         | Null \<Rightarrow> False
         | Undefined \<Rightarrow> False))"

text \<open>
  The win detector as the specification words it: the first triple, in the order of the
  enumeration, that is complete, with the mark it holds; otherwise no winner and no line.
\<close>

definition evaluate_spec :: "board \<Rightarrow> winner_info" where
  "evaluate_spec squares =
     (case find (complete_line squares) LINES of
        None \<Rightarrow> \<lparr>winner = Null, line = None\<rparr>
      | Some (a, b, c) \<Rightarrow> \<lparr>winner = get_cell squares a, line = Some [a, b, c]\<rparr>)"

text \<open>The board that holds mark \<open>m\<close> on the three cells of one triple and nothing else.\<close>

definition line_board :: "nat \<times> nat \<times> nat \<Rightarrow> player \<Rightarrow> board" where
  "line_board l m = (case l of (a, b, c) \<Rightarrow> (replicate 9 Null)[a := Mark m, b := Mark m, c := Mark m])"

definition triple_list :: "nat \<times> nat \<times> nat \<Rightarrow> nat list" where
  "triple_list l = (case l of (a, b, c) \<Rightarrow> [a, b, c])"

text \<open>
  The win/block sub-check on one triple: exactly two of its cells hold the mark and the
  third is Empty; that Empty index is the candidate.
\<close>

definition candidate :: "board \<Rightarrow> player \<Rightarrow> nat \<times> nat \<times> nat \<Rightarrow> nat option" where
  "candidate squares m l =
     (case l of (a, b, c) \<Rightarrow>
        if get_cell squares a = Null \<and> get_cell squares b = Mark m \<and> get_cell squares c = Mark m
        then Some a
        else if get_cell squares a = Mark m \<and> get_cell squares b = Null \<and> get_cell squares c = Mark m
        then Some b
        else if get_cell squares a = Mark m \<and> get_cell squares b = Mark m \<and> get_cell squares c = Null
        then Some c
        else None)"

text \<open>The candidate of the first triple, in canonical order, that has one.\<close>

definition first_candidate :: "board \<Rightarrow> player \<Rightarrow> nat option" where
  "first_candidate squares m =
     (case find (\<lambda>l. candidate squares m l \<noteq> None) LINES of
        None \<Rightarrow> None
      | Some l \<Rightarrow> candidate squares m l)"

definition other :: "player \<Rightarrow> player" where
  "other m = (case m of PX \<Rightarrow> PO | PO \<Rightarrow> PX)"

definition empty_cells :: "board \<Rightarrow> nat list \<Rightarrow> nat list" where
  "empty_cells squares is = filter (\<lambda>i. get_cell squares i = Null) is"

text \<open>
  The parity rule for the turn: the starting player when the pointer is even, the
  opposite mark when it is odd.
\<close>

definition turn_rule :: "game \<Rightarrow> bool" where
  "turn_rule g =
     (nextPlayer g = (if even (stepNumber g) then startingPlayer g else other (startingPlayer g)))"

section \<open>Example states\<close>

text \<open>
  Two-player mode: X plays 0, O plays 3, X plays 1, then the history is rewound to step 1.
\<close>

definition rewound :: game where
  "rewound =
     \<lparr>history =
        [[Null, Null, Null, Null, Null, Null, Null, Null, Null],
         [Mark PX, Null, Null, Null, Null, Null, Null, Null, Null],
         [Mark PX, Null, Null, Mark PO, Null, Null, Null, Null, Null],
         [Mark PX, Mark PX, Null, Mark PO, Null, Null, Null, Null, Null]],
      stepNumber = 1, xIsNext = False, mode = HUMAN, startingPlayer = PX,
      scores = \<lparr>scoreX = 0, scoreO = 0, draws = 0\<rparr>, scoreDeps = (False, Null)\<rparr>"

definition rewound_view :: view where
  "rewound_view =
     \<lparr>current = [Mark PX, Null, Null, Null, Null, Null, Null, Null, Null],
      winnerInfo = \<lparr>winner = Null, line = None\<rparr>,
      isBoardFull = False, gameOver = False, isCpuTurn = False\<rparr>"

text \<open>
  Mode CPU with X (the human) starting: the human has played cell 0, and the CPU's timer
  is pending.
\<close>

definition cpu_thinking :: game where
  "cpu_thinking =
     \<lparr>history =
        [[Null, Null, Null, Null, Null, Null, Null, Null, Null],
         [Mark PX, Null, Null, Null, Null, Null, Null, Null, Null]],
      stepNumber = 1, xIsNext = False, mode = CPU, startingPlayer = PX,
      scores = \<lparr>scoreX = 0, scoreO = 0, draws = 0\<rparr>, scoreDeps = (False, Null)\<rparr>"

text \<open>Whether the render of a state has \<^verbatim>\<open>isCpuTurn\<close> set.\<close>

definition cpuToMove :: "game \<Rightarrow> bool" where
  "cpuToMove g = (case render g of Inl e \<Rightarrow> False | Inr v \<Rightarrow> isCpuTurn v)"

section \<open>Facts about the embedding\<close>

lemma init_commit: "commit init = Inr init"
  by code_simp

subsection \<open>The win detector\<close>

lemma truthy_Mark: "truthy c = (\<exists>m. c = Mark m)"
  by (cases c) (simp_all add: truthy_def)

lemma complete_line_iff:
  "complete_line squares (a, b, c) =
     (truthy (get_cell squares a) \<and> get_cell squares a = get_cell squares b
        \<and> get_cell squares a = get_cell squares c)"
  by (cases "get_cell squares a") (auto simp: complete_line_def truthy_def)

lemma calculateWinner_loop_step:
  "calculateWinner_loop squares ((a, b, c) # rest) =
     (if complete_line squares (a, b, c)
      then \<lparr>winner = get_cell squares a, line = Some [a, b, c]\<rparr>
      else calculateWinner_loop squares rest)"
  by (simp add: complete_line_iff)

lemma calculateWinner_loop_find:
  "calculateWinner_loop squares ls =
     (case find (complete_line squares) ls of
        None \<Rightarrow> \<lparr>winner = Null, line = None\<rparr>
      | Some (a, b, c) \<Rightarrow> \<lparr>winner = get_cell squares a, line = Some [a, b, c]\<rparr>)"
proof (induction ls)
  case Nil
  show ?case by simp
next
  case (Cons l ls)
  obtain a b c where l: "l = (a, b, c)" by (cases l) auto
  show ?case
    unfolding l calculateWinner_loop_step using Cons.IH by simp
qed

lemma find_first_index:
  assumes "i < length ls" and "P (ls ! i)" and "\<forall>j<i. \<not> P (ls ! j)"
  shows "find P ls = Some (ls ! i)"
  using assms
proof (induction ls arbitrary: i)
  case Nil
  then show ?case by simp
next
  case (Cons x xs)
  show ?case
  proof (cases i)
    case 0
    with Cons.prems show ?thesis by simp
  next
    case (Suc k)
    from Cons.prems Suc have nx: "\<not> P x" by auto
    from Cons.prems Suc have "k < length xs" "P (xs ! k)" "\<forall>j<k. \<not> P (xs ! j)" by auto
    from Cons.IH [OF this] nx Suc show ?thesis by simp
  qed
qed

lemma line_board_all:
  "list_all (\<lambda>l. calculateWinner (line_board l PX) = \<lparr>winner = Mark PX, line = Some (triple_list l)\<rparr>
               \<and> calculateWinner (line_board l PO) = \<lparr>winner = Mark PO, line = Some (triple_list l)\<rparr>)
     LINES"
  by code_simp

lemma line_board_winner:
  assumes "l \<in> set LINES"
  shows "calculateWinner (line_board l m) = \<lparr>winner = Mark m, line = Some (triple_list l)\<rparr>"
  using line_board_all assms by (cases m) (auto simp: list_all_iff)

text \<open>
  Claim C4. The win detector visits the eight winning triples in the canonical order (rows,
  columns, diagonals) and returns the first one whose three cells hold the same mark,
  together with that mark; when no triple is complete it returns no winner and no line.
  A board holding one mark on exactly one winning line and nothing else yields that mark
  and that triple, and when several triples are complete the one with the lowest index in
  the enumeration is returned.
\<close>

theorem calculateWinner_first_complete_line:
  "LINES = [(0, 1, 2), (3, 4, 5), (6, 7, 8), (0, 3, 6), (1, 4, 7), (2, 5, 8), (0, 4, 8), (2, 4, 6)]
   \<and> calculateWinner squares = evaluate_spec squares
   \<and> (\<forall>l \<in> set LINES. \<forall>m.
        calculateWinner (line_board l m) = \<lparr>winner = Mark m, line = Some (triple_list l)\<rparr>)
   \<and> (\<forall>i < length LINES.
        complete_line squares (LINES ! i) \<and> (\<forall>j < i. \<not> complete_line squares (LINES ! j)) \<longrightarrow>
        calculateWinner squares =
          \<lparr>winner = get_cell squares (fst (LINES ! i)), line = Some (triple_list (LINES ! i))\<rparr>)"
proof (intro conjI)
  show "LINES = [(0, 1, 2), (3, 4, 5), (6, 7, 8), (0, 3, 6), (1, 4, 7), (2, 5, 8), (0, 4, 8), (2, 4, 6)]"
    by (simp add: LINES_def)
  show spec: "calculateWinner squares = evaluate_spec squares"
    by (simp add: calculateWinner_def evaluate_spec_def calculateWinner_loop_find)
  show "\<forall>l \<in> set LINES. \<forall>m.
        calculateWinner (line_board l m) = \<lparr>winner = Mark m, line = Some (triple_list l)\<rparr>"
    by (simp add: line_board_winner)
  show "\<forall>i < length LINES.
        complete_line squares (LINES ! i) \<and> (\<forall>j < i. \<not> complete_line squares (LINES ! j)) \<longrightarrow>
        calculateWinner squares =
          \<lparr>winner = get_cell squares (fst (LINES ! i)), line = Some (triple_list (LINES ! i))\<rparr>"
  proof (intro allI impI)
    fix i
    assume i: "i < length LINES"
      and c: "complete_line squares (LINES ! i) \<and> (\<forall>j < i. \<not> complete_line squares (LINES ! j))"
    have "find (complete_line squares) LINES = Some (LINES ! i)"
      using find_first_index [of i LINES "complete_line squares"] i c by blast
    then show "calculateWinner squares =
          \<lparr>winner = get_cell squares (fst (LINES ! i)), line = Some (triple_list (LINES ! i))\<rparr>"
      by (cases "LINES ! i") (simp add: spec evaluate_spec_def triple_list_def)
  qed
qed

theorem calculateWinner_first_complete_line_witness:
  "0 < length LINES
   \<and> complete_line [Mark PX, Mark PX, Mark PX, Mark PO, Mark PO, Mark PO, Null, Null, Null] (LINES ! 0)
   \<and> complete_line [Mark PX, Mark PX, Mark PX, Mark PO, Mark PO, Mark PO, Null, Null, Null] (LINES ! 1)
   \<and> calculateWinner [Mark PX, Mark PX, Mark PX, Mark PO, Mark PO, Mark PO, Null, Null, Null]
       = \<lparr>winner = Mark PX, line = Some [0, 1, 2]\<rparr>
   \<and> (2, 4, 6) \<in> set LINES
   \<and> calculateWinner (line_board (2, 4, 6) PO) = \<lparr>winner = Mark PO, line = Some [2, 4, 6]\<rparr>"
proof -
  let ?B = "[Mark PX, Mark PX, Mark PX, Mark PO, Mark PO, Mark PO, Null, Null, Null]"
  have len: "0 < length LINES"
    by (simp add: LINES_def)
  have c0: "complete_line ?B (LINES ! 0)"
    by (simp add: LINES_def complete_line_def get_cell_def)
  have c1: "complete_line ?B (LINES ! 1)"
    by (simp add: LINES_def complete_line_def get_cell_def)
  have mem: "(2, 4, 6) \<in> set LINES"
    by (simp add: LINES_def)
  have "calculateWinner ?B =
      \<lparr>winner = get_cell ?B (fst (LINES ! 0)), line = Some (triple_list (LINES ! 0))\<rparr>"
    using calculateWinner_first_complete_line
      [of ?B, THEN conjunct2, THEN conjunct2, THEN conjunct2, rule_format, of 0] len c0
    by simp
  then have w: "calculateWinner ?B = \<lparr>winner = Mark PX, line = Some [0, 1, 2]\<rparr>"
    by (simp add: LINES_def triple_list_def get_cell_def)
  have "calculateWinner (line_board (2, 4, 6) PO) = \<lparr>winner = Mark PO, line = Some (triple_list (2, 4, 6))\<rparr>"
    using calculateWinner_first_complete_line
      [of ?B, THEN conjunct2, THEN conjunct2, THEN conjunct1, rule_format, OF mem]
    by simp
  then have lb: "calculateWinner (line_board (2, 4, 6) PO) = \<lparr>winner = Mark PO, line = Some [2, 4, 6]\<rparr>"
    by (simp add: triple_list_def)
  from len c0 c1 w mem lb show ?thesis by simp
qed

lemma calculateWinner_loop_coupled:
  "(winner (calculateWinner_loop squares ls) = Null) = (line (calculateWinner_loop squares ls) = None)
   \<and> winner (calculateWinner_loop squares ls) \<noteq> Undefined
   \<and> (\<forall>m. winner (calculateWinner_loop squares ls) = Mark m \<longrightarrow>
         (\<exists>a b c. line (calculateWinner_loop squares ls) = Some [a, b, c] \<and> (a, b, c) \<in> set ls
            \<and> get_cell squares a = Mark m \<and> get_cell squares b = Mark m
            \<and> get_cell squares c = Mark m))"
proof (induction ls)
  case Nil
  show ?case by simp
next
  case (Cons l ls)
  obtain a b c where l: "l = (a, b, c)" by (cases l) auto
  show ?case
  proof (cases "complete_line squares (a, b, c)")
    case True
    then obtain m where "get_cell squares a = Mark m" "get_cell squares b = Mark m"
      "get_cell squares c = Mark m"
      by (cases "get_cell squares a") (auto simp: complete_line_def)
    with True show ?thesis
      unfolding l calculateWinner_loop_step by simp
  next
    case False
    with Cons.IH show ?thesis
      unfolding l calculateWinner_loop_step by auto
  qed
qed

text \<open>
  Claim C10. For every board, the two fields of the win detector's result are coupled:
  the winner is \<^verbatim>\<open>null\<close> exactly when the line is \<^verbatim>\<open>null\<close>, and whenever the winner is
  a mark \<open>m\<close> the line is a triple \<open>[a, b, c]\<close> of the eight canonical winning triples whose
  three cells of the input board all hold \<open>m\<close>.
\<close>

theorem calculateWinner_fields_coupled:
  "(winner (calculateWinner squares) = Null) = (line (calculateWinner squares) = None)
   \<and> (\<forall>m. winner (calculateWinner squares) = Mark m \<longrightarrow>
         (\<exists>a b c. line (calculateWinner squares) = Some [a, b, c] \<and> (a, b, c) \<in> set LINES
            \<and> get_cell squares a = Mark m \<and> get_cell squares b = Mark m
            \<and> get_cell squares c = Mark m))
   \<and> (\<forall>m a b c. winner (calculateWinner squares) = Mark m
          \<and> line (calculateWinner squares) = Some [a, b, c] \<longrightarrow>
         (a, b, c) \<in> set LINES \<and> get_cell squares a = Mark m \<and> get_cell squares b = Mark m
            \<and> get_cell squares c = Mark m)"
  using calculateWinner_loop_coupled [of squares LINES]
  unfolding calculateWinner_def by auto

theorem calculateWinner_fields_coupled_witness:
  "winner (calculateWinner [Mark PO, Mark PX, Null, Mark PX, Mark PO, Null, Mark PX, Null, Mark PO]) = Mark PO
   \<and> line (calculateWinner [Mark PO, Mark PX, Null, Mark PX, Mark PO, Null, Mark PX, Null, Mark PO]) = Some [0, 4, 8]
   \<and> (0, 4, 8) \<in> set LINES
   \<and> get_cell [Mark PO, Mark PX, Null, Mark PX, Mark PO, Null, Mark PX, Null, Mark PO] 0 = Mark PO
   \<and> get_cell [Mark PO, Mark PX, Null, Mark PX, Mark PO, Null, Mark PX, Null, Mark PO] 4 = Mark PO
   \<and> get_cell [Mark PO, Mark PX, Null, Mark PX, Mark PO, Null, Mark PX, Null, Mark PO] 8 = Mark PO"
proof -
  let ?B = "[Mark PO, Mark PX, Null, Mark PX, Mark PO, Null, Mark PX, Null, Mark PO]"
  have w: "winner (calculateWinner ?B) = Mark PO"
    by code_simp
  have l: "line (calculateWinner ?B) = Some [0, 4, 8]"
    by code_simp
  from calculateWinner_fields_coupled [of ?B] w l
  have "(0, 4, 8) \<in> set LINES \<and> get_cell ?B 0 = Mark PO \<and> get_cell ?B 4 = Mark PO
      \<and> get_cell ?B 8 = Mark PO"
    by blast
  with w l show ?thesis by simp
qed

subsection \<open>The move selector\<close>

lemma find_Some_mem:
  assumes "find P xs = Some x"
  shows "x \<in> set xs \<and> P x"
  using assms by (induction xs) (auto split: if_splits)

lemma findWinningMove_loop_step:
  "findWinningMove_loop squares p ((a, b, c) # rest) =
     (case candidate squares p (a, b, c) of
        Some i \<Rightarrow> int i
      | None \<Rightarrow> findWinningMove_loop squares p rest)"
  by (cases "get_cell squares a"; cases "get_cell squares b"; cases "get_cell squares c")
     (auto simp: candidate_def Let_def)

lemma findWinningMove_loop_find:
  "findWinningMove_loop squares p ls =
     (case find (\<lambda>l. candidate squares p l \<noteq> None) ls of
        None \<Rightarrow> - 1
      | Some l \<Rightarrow> (case candidate squares p l of Some i \<Rightarrow> int i | None \<Rightarrow> - 1))"
proof (induction ls)
  case Nil
  show ?case by simp
next
  case (Cons l ls)
  obtain a b c where l: "l = (a, b, c)" by (cases l) auto
  show ?case
    unfolding l findWinningMove_loop_step using Cons.IH
    by (cases "candidate squares p (a, b, c)") simp_all
qed

lemma findWinningMove_first_candidate:
  "findWinningMove squares p = (case first_candidate squares p of Some i \<Rightarrow> int i | None \<Rightarrow> - 1)"
proof (cases "find (\<lambda>l. candidate squares p l \<noteq> None) LINES")
  case None
  then show ?thesis
    by (simp add: findWinningMove_def first_candidate_def findWinningMove_loop_find)
next
  case (Some l)
  then show ?thesis
    by (simp add: findWinningMove_def first_candidate_def findWinningMove_loop_find)
qed

lemma candidate_Some_cell:
  assumes "candidate squares p (a, b, c) = Some i"
  shows "get_cell squares i = Null \<and> (i = a \<or> i = b \<or> i = c)"
  using assms by (auto simp: candidate_def split: if_splits)

lemma LINES_bound:
  assumes "(a, b, c) \<in> set LINES"
  shows "a < 9 \<and> b < 9 \<and> c < 9 \<and> a \<noteq> b \<and> a \<noteq> c \<and> b \<noteq> c"
  using assms by (auto simp: LINES_def)

lemma first_candidate_Some:
  assumes "first_candidate squares p = Some i"
  shows "get_cell squares i = Null \<and> i < 9"
proof -
  from assms obtain l where f: "find (\<lambda>l. candidate squares p l \<noteq> None) LINES = Some l"
    and c: "candidate squares p l = Some i"
    by (auto simp: first_candidate_def split: option.splits)
  from find_Some_mem [OF f] have l: "l \<in> set LINES" by simp
  obtain a b c' where abc: "l = (a, b, c')" by (cases l) auto
  from candidate_Some_cell [of squares p a b c' i] c abc LINES_bound [of a b c'] l
  show ?thesis by auto
qed

lemma first_candidate_None_full:
  assumes "Null \<notin> set squares"
  shows "first_candidate squares p = None"
proof (cases "first_candidate squares p")
  case None
  then show ?thesis .
next
  case (Some i)
  from first_candidate_Some [OF Some] have "get_cell squares i = Null" by simp
  then have "Null \<in> set squares"
    by (metis cell.distinct(1) get_cell_def nth_mem)
  with assms show ?thesis by simp
qed

lemma randomPick_mem:
  assumes "arr \<noteq> []"
  shows "randomPick arr r \<in> set arr"
  using assms by (simp add: randomPick_def)

lemma randomPick_onto:
  assumes "x \<in> set arr"
  shows "\<exists>r. randomPick arr r = x"
proof -
  from assms obtain k where "k < length arr" and "arr ! k = x"
    by (auto simp: in_set_conv_nth)
  then have "randomPick arr k = x" by (simp add: randomPick_def)
  then show ?thesis ..
qed

lemma wf_board_get:
  assumes "wf_board squares" and "i < 9"
  shows "get_cell squares i = squares ! i"
  using assms by (simp add: wf_board_def get_cell_def)

lemma wf_board_falsy:
  assumes "wf_board squares" and "i < 9"
  shows "(\<not> truthy (get_cell squares i)) = (get_cell squares i = Null)"
proof -
  from assms have i: "i < length squares" and "squares ! i \<in> set squares"
    by (simp_all add: wf_board_def)
  with assms have "squares ! i \<noteq> Undefined"
    by (auto simp: wf_board_def list_all_iff)
  with i show ?thesis
    by (cases "squares ! i") (simp_all add: get_cell_def truthy_def)
qed

lemma falsy_filter_empty_cells:
  assumes "wf_board squares" and "\<forall>i \<in> set is. i < 9"
  shows "filter (\<lambda>i. \<not> truthy (get_cell squares i)) is = empty_cells squares is"
  unfolding empty_cells_def
proof (rule filter_cong [OF refl])
  fix x assume "x \<in> set is"
  with assms have "x < 9" by blast
  from wf_board_falsy [OF assms(1) this]
  show "(\<not> truthy (get_cell squares x)) = (get_cell squares x = Null)" .
qed

lemma empty_cells_mem:
  "i \<in> set (empty_cells squares is) = (i \<in> set is \<and> get_cell squares i = Null)"
  by (simp add: empty_cells_def)

text \<open>The selector, with the source's tests rewritten in the specification's words.\<close>

lemma chooseBestMove_cases:
  assumes "wf_board squares"
  shows "chooseBestMove squares p r =
     (case first_candidate squares p of
        Some i \<Rightarrow> int i
      | None \<Rightarrow>
         (case first_candidate squares (other p) of
            Some i \<Rightarrow> int i
          | None \<Rightarrow>
              if get_cell squares 4 = Null then 4
              else if empty_cells squares [0, 2, 6, 8] \<noteq> []
                   then int (randomPick (empty_cells squares [0, 2, 6, 8]) r)
              else if empty_cells squares [1, 3, 5, 7] \<noteq> []
                   then int (randomPick (empty_cells squares [1, 3, 5, 7]) r)
              else - 1))"
proof -
  have opp: "(if p = PX then PO else PX) = other p"
    by (cases p) (simp_all add: other_def)
  have c4: "(\<not> truthy (get_cell squares 4)) = (get_cell squares 4 = Null)"
    using wf_board_falsy [OF assms, of 4] by simp
  have co: "filter (\<lambda>i. \<not> truthy (get_cell squares i)) [0, 2, 6, 8] = empty_cells squares [0, 2, 6, 8]"
    using falsy_filter_empty_cells [OF assms, of "[0, 2, 6, 8]"] by simp
  have si: "filter (\<lambda>i. \<not> truthy (get_cell squares i)) [1, 3, 5, 7] = empty_cells squares [1, 3, 5, 7]"
    using falsy_filter_empty_cells [OF assms, of "[1, 3, 5, 7]"] by simp
  show ?thesis
    unfolding chooseBestMove_def Let_def opp c4 co si findWinningMove_first_candidate
    by (simp split: option.splits)
qed

lemma less_9_cases:
  assumes "(i::nat) < 9"
  shows "i = 0 \<or> i = 1 \<or> i = 2 \<or> i = 3 \<or> i = 4 \<or> i = 5 \<or> i = 6 \<or> i = 7 \<or> i = 8"
  using assms by arith

lemma chooseBestMove_full_board:
  assumes "wf_board squares" and "Null \<notin> set squares"
  shows "chooseBestMove squares p r = - 1"
proof -
  have nn: "get_cell squares i \<noteq> Null" for i
    using assms(2) by (metis cell.distinct(1) get_cell_def nth_mem)
  then have e: "empty_cells squares is = []" for "is"
    by (simp add: empty_cells_def)
  show ?thesis
    by (simp add: chooseBestMove_cases [OF assms(1)] first_candidate_None_full [OF assms(2)] nn e)
qed

lemma chooseBestMove_none_full:
  assumes "wf_board squares" and "chooseBestMove squares p r = - 1"
  shows "Null \<notin> set squares"
proof
  assume "Null \<in> set squares"
  then obtain i where i: "i < length squares" and n: "squares ! i = Null"
    by (auto simp: in_set_conv_nth)
  from i assms(1) have i9: "i < 9" by (simp add: wf_board_def)
  from i n have g: "get_cell squares i = Null" by (simp add: get_cell_def)
  from assms(2) have c: "get_cell squares 4 \<noteq> Null"
    and co: "empty_cells squares [0, 2, 6, 8] = []"
    and si: "empty_cells squares [1, 3, 5, 7] = []"
    by (auto simp: chooseBestMove_cases [OF assms(1)] split: option.splits if_splits)
  from co have "\<forall>k \<in> set [0, 2, 6, 8]. get_cell squares k \<noteq> Null"
    unfolding empty_cells_def filter_empty_conv by blast
  moreover from si have "\<forall>k \<in> set [1, 3, 5, 7]. get_cell squares k \<noteq> Null"
    unfolding empty_cells_def filter_empty_conv by blast
  ultimately have "get_cell squares i \<noteq> Null"
    using c less_9_cases [OF i9] by auto
  with g show False by simp
qed

lemma chooseBestMove_in_range:
  assumes "chooseBestMove squares p r \<noteq> - 1"
  shows "0 \<le> chooseBestMove squares p r \<and> chooseBestMove squares p r < 9
         \<and> \<not> truthy (get_cell squares (nat (chooseBestMove squares p r)))"
proof -
  let ?opp = "if p = PX then PO else PX"
  let ?co = "filter (\<lambda>i. \<not> truthy (get_cell squares i)) [0, 2, 6, 8]"
  let ?si = "filter (\<lambda>i. \<not> truthy (get_cell squares i)) [1, 3, 5, 7]"
  have fw: "findWinningMove squares q \<noteq> - 1 \<Longrightarrow>
      0 \<le> findWinningMove squares q \<and> findWinningMove squares q < 9
      \<and> \<not> truthy (get_cell squares (nat (findWinningMove squares q)))" for q
    using first_candidate_Some [of squares q]
    by (cases "first_candidate squares q")
       (auto simp: findWinningMove_first_candidate truthy_def)
  consider (win) "findWinningMove squares p \<noteq> - 1"
    | (block) "findWinningMove squares p = - 1" "findWinningMove squares ?opp \<noteq> - 1"
    | (centre) "findWinningMove squares p = - 1" "findWinningMove squares ?opp = - 1"
        "\<not> truthy (get_cell squares 4)"
    | (corner) "findWinningMove squares p = - 1" "findWinningMove squares ?opp = - 1"
        "truthy (get_cell squares 4)" "?co \<noteq> []"
    | (side) "findWinningMove squares p = - 1" "findWinningMove squares ?opp = - 1"
        "truthy (get_cell squares 4)" "?co = []" "?si \<noteq> []"
    | (none) "findWinningMove squares p = - 1" "findWinningMove squares ?opp = - 1"
        "truthy (get_cell squares 4)" "?co = []" "?si = []"
    by blast
  then show ?thesis
  proof cases
    case win
    then have "chooseBestMove squares p r = findWinningMove squares p"
      by (simp add: chooseBestMove_def Let_def)
    with fw [OF win] show ?thesis by simp
  next
    case block
    then have "chooseBestMove squares p r = findWinningMove squares ?opp"
      by (simp add: chooseBestMove_def Let_def)
    with fw [OF block(2)] show ?thesis by simp
  next
    case centre
    then have "chooseBestMove squares p r = 4"
      by (simp add: chooseBestMove_def Let_def)
    with centre show ?thesis by simp
  next
    case corner
    then have eq: "chooseBestMove squares p r = int (randomPick ?co r)"
      by (simp add: chooseBestMove_def Let_def)
    from randomPick_mem [OF corner(4), of r]
    have "randomPick ?co r < 9 \<and> \<not> truthy (get_cell squares (randomPick ?co r))"
      by auto
    with eq show ?thesis by simp
  next
    case side
    then have eq: "chooseBestMove squares p r = int (randomPick ?si r)"
      by (simp add: chooseBestMove_def Let_def)
    from randomPick_mem [OF side(5), of r]
    have "randomPick ?si r < 9 \<and> \<not> truthy (get_cell squares (randomPick ?si r))"
      by auto
    with eq show ?thesis by simp
  next
    case none
    then have "chooseBestMove squares p r = - 1"
      by (simp add: chooseBestMove_def Let_def)
    with assms show ?thesis by simp
  qed
qed

text \<open>
  Claim C8. For every board and mark, when the move selector returns a cell index rather
  than \<open>-1\<close>, the index is one of \<open>0..8\<close> and the cell there holds no mark; on a board of
  nine cells each Empty, X or O the cell is Empty. It never returns the index of an
  occupied cell.
\<close>

theorem chooseBestMove_never_occupied:
  "(chooseBestMove squares p r \<noteq> - 1 \<longrightarrow>
      0 \<le> chooseBestMove squares p r \<and> chooseBestMove squares p r < 9
      \<and> (\<forall>m. get_cell squares (nat (chooseBestMove squares p r)) \<noteq> Mark m))
   \<and> (wf_board squares \<and> chooseBestMove squares p r \<noteq> - 1 \<longrightarrow>
        squares ! nat (chooseBestMove squares p r) = Null)"
proof (intro conjI impI)
  assume a: "chooseBestMove squares p r \<noteq> - 1"
  from chooseBestMove_in_range [OF a]
  show "0 \<le> chooseBestMove squares p r" and "chooseBestMove squares p r < 9"
    and "\<forall>m. get_cell squares (nat (chooseBestMove squares p r)) \<noteq> Mark m"
    by (auto simp: truthy_def)
next
  assume a: "wf_board squares \<and> chooseBestMove squares p r \<noteq> - 1"
  then have wf: "wf_board squares" and ne: "chooseBestMove squares p r \<noteq> - 1" by simp_all
  from chooseBestMove_in_range [OF ne]
  have r: "nat (chooseBestMove squares p r) < 9"
    and f: "\<not> truthy (get_cell squares (nat (chooseBestMove squares p r)))"
    by auto
  from f wf_board_falsy [OF wf r] wf_board_get [OF wf r]
  show "squares ! nat (chooseBestMove squares p r) = Null" by simp
qed

theorem chooseBestMove_never_occupied_witness:
  "wf_board [Mark PX, Mark PO, Mark PX, Null, Mark PO, Null, Mark PO, Mark PX, Null]
   \<and> chooseBestMove [Mark PX, Mark PO, Mark PX, Null, Mark PO, Null, Mark PO, Mark PX, Null] PX 0 = 8
   \<and> [Mark PX, Mark PO, Mark PX, Null, Mark PO, Null, Mark PO, Mark PX, Null] ! nat 8 = Null"
proof -
  let ?B = "[Mark PX, Mark PO, Mark PX, Null, Mark PO, Null, Mark PO, Mark PX, Null]"
  have wf: "wf_board ?B" by (simp add: wf_board_def)
  have v: "chooseBestMove ?B PX 0 = 8" by code_simp
  then have ne: "chooseBestMove ?B PX 0 \<noteq> - 1" by simp
  from chooseBestMove_never_occupied [of ?B PX 0] wf ne
  have "?B ! nat (chooseBestMove ?B PX 0) = Null" by blast
  with wf v show ?thesis by simp
qed

lemma candidate_completes:
  assumes "a < length squares" and "b < length squares" and "c < length squares"
    and "a \<noteq> b" and "a \<noteq> c" and "b \<noteq> c"
  shows "(candidate squares p (a, b, c) = Some i) =
         (i \<in> {a, b, c} \<and> squares ! i = Null \<and> complete_line (squares[i := Mark p]) (a, b, c))"
  using assms
  by (auto simp: candidate_def complete_line_def get_cell_def nth_list_update
      split: cell.splits if_splits)

lemma candidate_completes_LINES:
  assumes "wf_board squares" and "l \<in> set LINES"
  shows "(candidate squares p l = Some i) =
         (i \<in> set (triple_list l) \<and> squares ! i = Null \<and> complete_line (squares[i := Mark p]) l)"
proof -
  obtain a b c where l: "l = (a, b, c)" by (cases l) auto
  from assms(2) l LINES_bound [of a b c] assms(1)
  have "a < length squares" "b < length squares" "c < length squares" "a \<noteq> b" "a \<noteq> c" "b \<noteq> c"
    by (simp_all add: wf_board_def)
  from candidate_completes [OF this, of p i] show ?thesis
    by (simp add: l triple_list_def)
qed

text \<open>
  Claim C5. On a board of nine cells, the move selector follows this priority: (1) when
  some winning triple has exactly two cells holding the mover's mark and its third cell
  Empty, it returns the Empty cell of the first such triple in canonical order; (2)
  otherwise the same search for the opposing mark; (3) otherwise cell 4 if it is Empty;
  (4) otherwise one of the Empty corners among 0, 2, 6, 8, picked by the random draw, any
  of them for some draw; (5) otherwise one of the Empty sides among 1, 3, 5, 7, likewise;
  (6) otherwise \<open>-1\<close>, which happens exactly when no cell is Empty. On \<open>[X,X,_,...]\<close> for X
  it returns 2, on \<open>[O,O,_,X,...]\<close> for X it returns 2, and on the empty board 4.
\<close>

theorem chooseBestMove_priority:
  assumes "wf_board squares"
  shows
    "findWinningMove squares p = (case first_candidate squares p of Some i \<Rightarrow> int i | None \<Rightarrow> - 1)
     \<and> (\<forall>l \<in> set LINES. \<forall>i.
          (candidate squares p l = Some i) =
          (i \<in> set (triple_list l) \<and> squares ! i = Null \<and> complete_line (squares[i := Mark p]) l))
     \<and> (\<forall>i. first_candidate squares p = Some i \<longrightarrow> chooseBestMove squares p r = int i)
     \<and> (\<forall>i. first_candidate squares p = None \<and> first_candidate squares (other p) = Some i \<longrightarrow>
           chooseBestMove squares p r = int i)
     \<and> (first_candidate squares p = None \<and> first_candidate squares (other p) = None \<longrightarrow>
          (squares ! 4 = Null \<longrightarrow> chooseBestMove squares p r = 4)
        \<and> (squares ! 4 \<noteq> Null \<and> empty_cells squares [0, 2, 6, 8] \<noteq> [] \<longrightarrow>
             chooseBestMove squares p r \<in> int ` set (empty_cells squares [0, 2, 6, 8])
             \<and> (\<forall>c \<in> set (empty_cells squares [0, 2, 6, 8]). \<exists>r'. chooseBestMove squares p r' = int c))
        \<and> (squares ! 4 \<noteq> Null \<and> empty_cells squares [0, 2, 6, 8] = []
             \<and> empty_cells squares [1, 3, 5, 7] \<noteq> [] \<longrightarrow>
             chooseBestMove squares p r \<in> int ` set (empty_cells squares [1, 3, 5, 7])
             \<and> (\<forall>c \<in> set (empty_cells squares [1, 3, 5, 7]). \<exists>r'. chooseBestMove squares p r' = int c))
        \<and> (squares ! 4 \<noteq> Null \<and> empty_cells squares [0, 2, 6, 8] = []
             \<and> empty_cells squares [1, 3, 5, 7] = [] \<longrightarrow> chooseBestMove squares p r = - 1))
     \<and> (chooseBestMove squares p r = - 1) = (Null \<notin> set squares)
     \<and> chooseBestMove [Mark PX, Mark PX, Null, Null, Null, Null, Null, Null, Null] PX r = 2
     \<and> chooseBestMove [Mark PO, Mark PO, Null, Mark PX, Null, Null, Null, Null, Null] PX r = 2
     \<and> chooseBestMove (replicate 9 Null) PX r = 4"
proof -
  note cases = chooseBestMove_cases [OF assms]
  have g4: "get_cell squares 4 = squares ! 4"
    using wf_board_get [OF assms, of 4] by simp
  have sub: "findWinningMove squares p = (case first_candidate squares p of Some i \<Rightarrow> int i | None \<Rightarrow> - 1)"
    by (rule findWinningMove_first_candidate)
  have comp: "\<forall>l \<in> set LINES. \<forall>i.
          (candidate squares p l = Some i) =
          (i \<in> set (triple_list l) \<and> squares ! i = Null \<and> complete_line (squares[i := Mark p]) l)"
    using candidate_completes_LINES [OF assms] by blast
  have win: "\<forall>i. first_candidate squares p = Some i \<longrightarrow> chooseBestMove squares p r = int i"
    by (simp add: cases)
  have block: "\<forall>i. first_candidate squares p = None \<and> first_candidate squares (other p) = Some i \<longrightarrow>
           chooseBestMove squares p r = int i"
    by (simp add: cases)
  have rest: "first_candidate squares p = None \<and> first_candidate squares (other p) = None \<longrightarrow>
          (squares ! 4 = Null \<longrightarrow> chooseBestMove squares p r = 4)
        \<and> (squares ! 4 \<noteq> Null \<and> empty_cells squares [0, 2, 6, 8] \<noteq> [] \<longrightarrow>
             chooseBestMove squares p r \<in> int ` set (empty_cells squares [0, 2, 6, 8])
             \<and> (\<forall>c \<in> set (empty_cells squares [0, 2, 6, 8]). \<exists>r'. chooseBestMove squares p r' = int c))
        \<and> (squares ! 4 \<noteq> Null \<and> empty_cells squares [0, 2, 6, 8] = []
             \<and> empty_cells squares [1, 3, 5, 7] \<noteq> [] \<longrightarrow>
             chooseBestMove squares p r \<in> int ` set (empty_cells squares [1, 3, 5, 7])
             \<and> (\<forall>c \<in> set (empty_cells squares [1, 3, 5, 7]). \<exists>r'. chooseBestMove squares p r' = int c))
        \<and> (squares ! 4 \<noteq> Null \<and> empty_cells squares [0, 2, 6, 8] = []
             \<and> empty_cells squares [1, 3, 5, 7] = [] \<longrightarrow> chooseBestMove squares p r = - 1)"
  proof (intro impI)
    assume "first_candidate squares p = None \<and> first_candidate squares (other p) = None"
    then have eq: "chooseBestMove squares p k =
        (if squares ! 4 = Null then 4
         else if empty_cells squares [0, 2, 6, 8] \<noteq> []
              then int (randomPick (empty_cells squares [0, 2, 6, 8]) k)
         else if empty_cells squares [1, 3, 5, 7] \<noteq> []
              then int (randomPick (empty_cells squares [1, 3, 5, 7]) k)
         else - 1)" for k
      by (simp add: chooseBestMove_cases [OF assms] g4)
    show "(squares ! 4 = Null \<longrightarrow> chooseBestMove squares p r = 4)
        \<and> (squares ! 4 \<noteq> Null \<and> empty_cells squares [0, 2, 6, 8] \<noteq> [] \<longrightarrow>
             chooseBestMove squares p r \<in> int ` set (empty_cells squares [0, 2, 6, 8])
             \<and> (\<forall>c \<in> set (empty_cells squares [0, 2, 6, 8]). \<exists>r'. chooseBestMove squares p r' = int c))
        \<and> (squares ! 4 \<noteq> Null \<and> empty_cells squares [0, 2, 6, 8] = []
             \<and> empty_cells squares [1, 3, 5, 7] \<noteq> [] \<longrightarrow>
             chooseBestMove squares p r \<in> int ` set (empty_cells squares [1, 3, 5, 7])
             \<and> (\<forall>c \<in> set (empty_cells squares [1, 3, 5, 7]). \<exists>r'. chooseBestMove squares p r' = int c))
        \<and> (squares ! 4 \<noteq> Null \<and> empty_cells squares [0, 2, 6, 8] = []
             \<and> empty_cells squares [1, 3, 5, 7] = [] \<longrightarrow> chooseBestMove squares p r = - 1)"
      unfolding eq
      using randomPick_mem [of "empty_cells squares [0, 2, 6, 8]" r]
        randomPick_mem [of "empty_cells squares [1, 3, 5, 7]" r]
        randomPick_onto [of _ "empty_cells squares [0, 2, 6, 8]"]
        randomPick_onto [of _ "empty_cells squares [1, 3, 5, 7]"]
      by (simp add: image_iff)
  qed
  have none: "(chooseBestMove squares p r = - 1) = (Null \<notin> set squares)"
    using chooseBestMove_full_board [OF assms, of p r] chooseBestMove_none_full [OF assms, of p r]
    by blast
  have e1: "chooseBestMove [Mark PX, Mark PX, Null, Null, Null, Null, Null, Null, Null] PX r = 2"
    by (simp add: chooseBestMove_def findWinningMove_def LINES_def get_cell_def Let_def)
  have e2: "chooseBestMove [Mark PO, Mark PO, Null, Mark PX, Null, Null, Null, Null, Null] PX r = 2"
    by (simp add: chooseBestMove_def findWinningMove_def LINES_def get_cell_def Let_def)
  have e3: "chooseBestMove (replicate 9 Null) PX r = 4"
    by (simp add: chooseBestMove_def findWinningMove_def LINES_def get_cell_def Let_def truthy_def)
  from sub comp win block rest none e1 e2 e3 show ?thesis by blast
qed

theorem chooseBestMove_priority_witness:
  "wf_board [Mark PO, Mark PO, Null, Mark PX, Null, Null, Null, Null, Null]
   \<and> first_candidate [Mark PO, Mark PO, Null, Mark PX, Null, Null, Null, Null, Null] PX = None
   \<and> first_candidate [Mark PO, Mark PO, Null, Mark PX, Null, Null, Null, Null, Null] (other PX) = Some 2
   \<and> chooseBestMove [Mark PO, Mark PO, Null, Mark PX, Null, Null, Null, Null, Null] PX 7 = 2
   \<and> wf_board [Mark PX, Mark PO, Mark PX, Null, Mark PO, Null, Mark PO, Mark PX, Null]
   \<and> first_candidate [Mark PX, Mark PO, Mark PX, Null, Mark PO, Null, Mark PO, Mark PX, Null] PX = None
   \<and> first_candidate [Mark PX, Mark PO, Mark PX, Null, Mark PO, Null, Mark PO, Mark PX, Null] (other PX) = None
   \<and> empty_cells [Mark PX, Mark PO, Mark PX, Null, Mark PO, Null, Mark PO, Mark PX, Null] [0, 2, 6, 8] = [8]
   \<and> chooseBestMove [Mark PX, Mark PO, Mark PX, Null, Mark PO, Null, Mark PO, Mark PX, Null] PX 7 = 8"
proof -
  let ?A = "[Mark PO, Mark PO, Null, Mark PX, Null, Null, Null, Null, Null]"
  let ?B = "[Mark PX, Mark PO, Mark PX, Null, Mark PO, Null, Mark PO, Mark PX, Null]"
  have wfA: "wf_board ?A" and wfB: "wf_board ?B"
    by (simp_all add: wf_board_def)
  have a1: "first_candidate ?A PX = None" by code_simp
  have a2: "first_candidate ?A (other PX) = Some 2" by code_simp
  have b1: "first_candidate ?B PX = None" by code_simp
  have b2: "first_candidate ?B (other PX) = None" by code_simp
  have b3: "empty_cells ?B [0, 2, 6, 8] = [8]" by code_simp
  have b4: "?B ! 4 \<noteq> Null" by simp
  from chooseBestMove_priority [OF wfA, of PX 7] a1 a2
  have ra: "chooseBestMove ?A PX 7 = 2" by simp
  from chooseBestMove_priority [OF wfB, of PX 7] b1 b2 b3 b4
  have rb: "chooseBestMove ?B PX 7 = 8" by simp
  from wfA a1 a2 ra wfB b1 b2 b3 rb show ?thesis by simp
qed

subsection \<open>Renders and handlers\<close>

lemma js_index_Some:
  "(js_index arr i = Some x) = (0 \<le> i \<and> i < int (length arr) \<and> x = arr ! nat i)"
  by (auto simp: js_index_def)

lemma render_Inr:
  assumes "render g = Inr v"
  shows "0 \<le> stepNumber g \<and> stepNumber g < int (length (history g))
         \<and> current v = history g ! nat (stepNumber g)
         \<and> winnerInfo v = calculateWinner (current v)
         \<and> gameOver v = (winner (calculateWinner (current v)) \<noteq> Null
                            \<or> list_all (\<lambda>c. c \<noteq> Null) (current v))"
  using assms
  by (cases "js_index (history g) (stepNumber g)")
     (auto simp: render_def Let_def js_index_def split: if_splits)

lemma render_defined:
  assumes "0 \<le> stepNumber g" and "stepNumber g < int (length (history g))"
  shows "\<exists>v. render g = Inr v"
  using assms by (simp add: render_def js_index_def Let_def)

lemma render_frame:
  assumes "history g' = history g" and "stepNumber g' = stepNumber g"
  shows "(\<exists>v. render g' = Inr v) = (\<exists>v. render g = Inr v)"
  using assms by (simp add: render_def js_index_def Let_def)

lemma slice0_take:
  assumes "0 \<le> e"
  shows "slice0 arr e = take (nat e) arr"
  using assms by (simp add: slice0_def)

lemma handlePlay_rejected:
  assumes "render g = Inr v" and "truthy (get_cell (current v) index) \<or> gameOver v"
  shows "handlePlay g index = Inr g"
  using assms by (auto simp: handlePlay_def)

lemma handlePlay_accepted:
  assumes "render g = Inr v" and "\<not> truthy (get_cell (current v) index)" and "\<not> gameOver v"
  shows "handlePlay g index =
     Inr (g\<lparr>history := take (nat (stepNumber g) + 1) (history g)
                @ [array_set (current v) index (Mark (nextPlayer g))],
            stepNumber := stepNumber g + 1,
            xIsNext := \<not> xIsNext g\<rparr>)"
proof -
  from render_Inr [OF assms(1)]
  have r: "0 \<le> stepNumber g" "stepNumber g < int (length (history g))" by simp_all
  then have sl: "slice0 (history g) (stepNumber g + 1) = take (nat (stepNumber g) + 1) (history g)"
    by (simp add: slice0_def nat_add_distrib)
  from r have len: "int (length (take (nat (stepNumber g) + 1) (history g))) = stepNumber g + 1"
    by simp
  show ?thesis
    using assms sl len by (simp add: handlePlay_def Let_def nextPlayer_def)
qed

lemma commit_frame:
  assumes "commit g = Inr g'"
  shows "history g' = history g \<and> stepNumber g' = stepNumber g \<and> xIsNext g' = xIsNext g
         \<and> mode g' = mode g \<and> startingPlayer g' = startingPlayer g"
  using assms
  by (cases "render g") (auto simp: commit_def scoreEffect_def Let_def split: if_splits)

lemma commit_defined:
  assumes "render g = Inr v"
  shows "\<exists>g'. commit g = Inr g'"
  using assms by (simp add: commit_def Let_def)

text \<open>
  Claim C6. After a successful move applied from step \<open>s\<close> (the pointer at position \<open>s\<close>
  of a possibly longer history), the history has length \<open>s + 2\<close>: entries \<open>0..s\<close> are
  unchanged, everything beyond is discarded, the new board is entry \<open>s + 1\<close>, and the
  pointer is \<open>s + 1\<close>. The committed state after the event has the same history and pointer.
\<close>

theorem handlePlay_branch_and_overwrite:
  assumes "render g = Inr v"
    and "\<not> truthy (get_cell (current v) index)"
    and "\<not> gameOver v"
    and "stepNumber g = int s"
  shows "\<exists>g'. handlePlay g index = Inr g'
           \<and> length (history g') = s + 2
           \<and> take (s + 1) (history g') = take (s + 1) (history g)
           \<and> (\<forall>i \<le> s. history g' ! i = history g ! i)
           \<and> history g' ! (s + 1) = array_set (history g ! s) index (Mark (nextPlayer g))
           \<and> stepNumber g' = int s + 1
           \<and> (\<exists>g''. fire (Play index) g = Inr g'' \<and> history g'' = history g'
                  \<and> stepNumber g'' = stepNumber g')"
proof -
  let ?next = "array_set (current v) index (Mark (nextPlayer g))"
  let ?g' = "g\<lparr>history := take (nat (stepNumber g) + 1) (history g) @ [?next],
               stepNumber := stepNumber g + 1, xIsNext := \<not> xIsNext g\<rparr>"
  from render_Inr [OF assms(1)] assms(4)
  have s: "s < length (history g)" and cur: "current v = history g ! s"
    by simp_all
  have hp: "handlePlay g index = Inr ?g'"
    by (rule handlePlay_accepted [OF assms(1-3)])
  from s have len: "length (history ?g') = s + 2"
    by (simp add: assms(4))
  have tk: "take (s + 1) (history ?g') = take (s + 1) (history g)"
    using s by (simp add: assms(4))
  have pre: "\<forall>i \<le> s. history ?g' ! i = history g ! i"
    using s by (simp add: assms(4) nth_append)
  have new: "history ?g' ! (s + 1) = array_set (history g ! s) index (Mark (nextPlayer g))"
    using s by (simp add: assms(4) nth_append cur)
  have st: "stepNumber ?g' = int s + 1"
    by (simp add: assms(4))
  from len st have "\<exists>w. render ?g' = Inr w"
    by (intro render_defined) simp_all
  then obtain w where "render ?g' = Inr w" ..
  from commit_defined [OF this] obtain g'' where c: "commit ?g' = Inr g''" ..
  from commit_frame [OF c] have fr: "history g'' = history ?g'" "stepNumber g'' = stepNumber ?g'"
    by simp_all
  from hp c have "fire (Play index) g = Inr g''"
    by (simp add: fire_def handler_def)
  with fr have ev: "\<exists>g''. fire (Play index) g = Inr g'' \<and> history g'' = history ?g'
      \<and> stepNumber g'' = stepNumber ?g'"
    by blast
  from hp len tk pre new st ev show ?thesis by blast
qed

theorem handlePlay_branch_and_overwrite_witness:
  "run [Click 0, Click 3, Click 1, Jump 1] init = Inr rewound
   \<and> length (history rewound) = 4
   \<and> render rewound = Inr rewound_view
   \<and> \<not> truthy (get_cell (current rewound_view) 4)
   \<and> \<not> gameOver rewound_view
   \<and> stepNumber rewound = int 1
   \<and> (\<exists>g'. handlePlay rewound 4 = Inr g'
           \<and> length (history g') = 1 + 2
           \<and> take (1 + 1) (history g') = take (1 + 1) (history rewound)
           \<and> (\<forall>i \<le> 1. history g' ! i = history rewound ! i)
           \<and> history g' ! (1 + 1) = array_set (history rewound ! 1) 4 (Mark (nextPlayer rewound))
           \<and> stepNumber g' = int 1 + 1
           \<and> (\<exists>g''. fire (Play 4) rewound = Inr g'' \<and> history g'' = history g'
                  \<and> stepNumber g'' = stepNumber g'))"
proof -
  have r: "run [Click 0, Click 3, Click 1, Jump 1] init = Inr rewound"
    by code_simp
  have l: "length (history rewound) = 4"
    by (simp add: rewound_def)
  have h1: "render rewound = Inr rewound_view"
    by code_simp
  have h2: "\<not> truthy (get_cell (current rewound_view) 4)"
    by (simp add: rewound_view_def get_cell_def truthy_def)
  have h3: "\<not> gameOver rewound_view"
    by (simp add: rewound_view_def)
  have h4: "stepNumber rewound = int 1"
    by (simp add: rewound_def)
  note c = handlePlay_branch_and_overwrite [OF h1 h2 h3 h4]
  from r l h1 h2 h3 h4 c show ?thesis by (intro conjI)
qed

subsection \<open>The turn\<close>

lemma smod_2_even: "((step::int) smod 2 = 0) = even step"
  by (auto simp: smod_int_alt_def sgn_if)

lemma turn_rule_iff:
  "turn_rule g = (xIsNext g = (if even (stepNumber g) then startingPlayer g = PX
                                else startingPlayer g \<noteq> PX))"
  by (cases "startingPlayer g") (auto simp: turn_rule_def nextPlayer_def other_def)

lemma jumpTo_turn_rule: "turn_rule (jumpTo g step)"
  by (simp add: turn_rule_iff jumpTo_def smod_2_even)

lemma startNewRound_turn_rule: "turn_rule (startNewRound g s)"
  by (simp add: turn_rule_iff startNewRound_def)

lemma resetMatch_turn_rule: "turn_rule (resetMatch g)"
  by (simp add: resetMatch_def startNewRound_turn_rule)

lemma setMode_turn_rule:
  assumes "turn_rule g"
  shows "turn_rule (setMode g m)"
  using assms by (simp add: turn_rule_iff setMode_def)

lemma handlePlay_turn_rule:
  assumes "turn_rule g" and "handlePlay g index = Inr g'"
  shows "turn_rule g'"
proof (cases "render g")
  case (Inl e)
  with assms(2) show ?thesis by (simp add: handlePlay_def)
next
  case (Inr v)
  show ?thesis
  proof (cases "truthy (get_cell (current v) index) \<or> gameOver v")
    case True
    from handlePlay_rejected [OF Inr True] assms show ?thesis by simp
  next
    case False
    then have "\<not> truthy (get_cell (current v) index)" and "\<not> gameOver v" by simp_all
    from handlePlay_accepted [OF Inr this] assms(2)
    have "stepNumber g' = stepNumber g + 1" and "xIsNext g' = (\<not> xIsNext g)"
      and "startingPlayer g' = startingPlayer g"
      by auto
    with assms(1) show ?thesis by (auto simp: turn_rule_iff)
  qed
qed

lemma clickSquare_turn_rule:
  assumes "turn_rule g" and "clickSquare g i = Inr g'"
  shows "turn_rule g'"
  using assms handlePlay_turn_rule [of g i g']
  by (cases "render g") (auto simp: clickSquare_def split: if_splits)

lemma cpuTimeout_turn_rule:
  assumes "turn_rule g" and "cpuTimeout g r = Inr g'"
  shows "turn_rule g'"
  using assms handlePlay_turn_rule [of g _ g']
  by (cases "render g") (auto simp: cpuTimeout_def Let_def split: if_splits)

lemma commit_turn_rule:
  assumes "turn_rule g" and "commit g = Inr g'"
  shows "turn_rule g'"
  using assms(1) commit_frame [OF assms(2)] by (simp add: turn_rule_iff)

lemma handler_turn_rule:
  assumes "turn_rule g" and "handler e g = Inr g'"
  shows "turn_rule g'"
proof (cases e)
  case (Play i)
  with assms show ?thesis by (auto simp: handler_def intro: handlePlay_turn_rule)
next
  case (Click i)
  with assms show ?thesis by (auto simp: handler_def intro: clickSquare_turn_rule)
next
  case (CpuTimeout r)
  with assms show ?thesis by (auto simp: handler_def intro: cpuTimeout_turn_rule)
next
  case (Jump step)
  with assms show ?thesis by (auto simp: handler_def jumpTo_turn_rule)
next
  case (NewRound s)
  with assms show ?thesis by (auto simp: handler_def startNewRound_turn_rule)
next
  case SwapStarter
  with assms show ?thesis by (auto simp: handler_def startNewRound_turn_rule)
next
  case ResetMatch
  with assms show ?thesis by (auto simp: handler_def resetMatch_turn_rule)
next
  case (SetMode m)
  with assms show ?thesis by (auto simp: handler_def setMode_turn_rule)
qed

lemma fire_turn_rule:
  assumes "turn_rule g" and "fire e g = Inr g'"
  shows "turn_rule g'"
proof (cases "handler e g")
  case (Inl err)
  with assms(2) show ?thesis by (simp add: fire_def)
next
  case (Inr h)
  with assms(2) have "commit h = Inr g'" by (simp add: fire_def)
  from commit_turn_rule [OF handler_turn_rule [OF assms(1) Inr] this] show ?thesis .
qed

lemma run_turn_rule:
  assumes "turn_rule g" and "run es g = Inr g'"
  shows "turn_rule g'"
  using assms
proof (induction es arbitrary: g)
  case Nil
  then show ?case by simp
next
  case (Cons e es)
  show ?case
  proof (cases "fire e g")
    case (Inl err)
    with Cons.prems(2) show ?thesis by simp
  next
    case (Inr h)
    with Cons.prems(2) have "run es h = Inr g'" by simp
    from Cons.IH [OF fire_turn_rule [OF Cons.prems(1) Inr] this] show ?thesis .
  qed
qed

lemma init_turn_rule: "turn_rule init"
  by (simp add: turn_rule_iff init_def)

text \<open>
  Claim C7. In every state reached from the initial state through the component's events
  (moves by handler call, by click or by the CPU timer, history jumps, new round, starter
  swap, match reset, mode change), the turn follows the parity rule: it is the starting
  player when \<^verbatim>\<open>stepNumber\<close> is even and the opposite mark when it is odd. In particular
  the turn read back after \<^verbatim>\<open>jumpTo(step)\<close> follows the rule for every step.
\<close>

theorem turn_follows_parity:
  "(run es init = Inr g \<longrightarrow>
      nextPlayer g = (if even (stepNumber g) then startingPlayer g else other (startingPlayer g)))
   \<and> nextPlayer (jumpTo g0 step) =
       (if even step then startingPlayer g0 else other (startingPlayer g0))
   \<and> stepNumber (jumpTo g0 step) = step
   \<and> startingPlayer (jumpTo g0 step) = startingPlayer g0"
proof (intro conjI impI)
  assume "run es init = Inr g"
  from run_turn_rule [OF init_turn_rule this]
  show "nextPlayer g = (if even (stepNumber g) then startingPlayer g else other (startingPlayer g))"
    by (simp add: turn_rule_def)
next
  have j: "stepNumber (jumpTo g0 step) = step" "startingPlayer (jumpTo g0 step) = startingPlayer g0"
    by (simp_all add: jumpTo_def)
  from jumpTo_turn_rule [of g0 step] j
  show "nextPlayer (jumpTo g0 step) =
       (if even step then startingPlayer g0 else other (startingPlayer g0))"
    by (simp add: turn_rule_def)
  from j show "stepNumber (jumpTo g0 step) = step"
    and "startingPlayer (jumpTo g0 step) = startingPlayer g0"
    by simp_all
qed

theorem turn_follows_parity_witness:
  "run [Click 0, Click 3, Click 1, Jump 1] init = Inr rewound
   \<and> nextPlayer rewound = PO \<and> stepNumber rewound = 1 \<and> startingPlayer rewound = PX
   \<and> nextPlayer rewound =
       (if even (stepNumber rewound) then startingPlayer rewound else other (startingPlayer rewound))"
proof -
  have r: "run [Click 0, Click 3, Click 1, Jump 1] init = Inr rewound"
    by code_simp
  have v: "nextPlayer rewound = PO" "stepNumber rewound = 1" "startingPlayer rewound = PX"
    by (simp_all add: rewound_def nextPlayer_def)
  from turn_follows_parity [of "[Click 0, Click 3, Click 1, Jump 1]" rewound] r
  have "nextPlayer rewound =
       (if even (stepNumber rewound) then startingPlayer rewound else other (startingPlayer rewound))"
    by blast
  with r v show ?thesis by (intro conjI)
qed

subsection \<open>Rounds and matches\<close>

lemma render_fresh_round:
  assumes "history g = [replicate 9 Null]" and "stepNumber g = 0"
  shows "\<exists>v. render g = Inr v \<and> current v = replicate 9 Null \<and> \<not> gameOver v
           \<and> winner (winnerInfo v) = Null"
  using assms
  by (simp add: render_def js_index_def Let_def calculateWinner_def LINES_def get_cell_def
      truthy_def numeral_eq_Suc)

lemma commit_fresh_round:
  assumes "history g = [replicate 9 Null]" and "stepNumber g = 0"
  shows "commit g = Inr (g\<lparr>scoreDeps := (False, Null)\<rparr>)"
proof -
  from render_fresh_round [OF assms] obtain v where v: "render g = Inr v"
    and n: "\<not> gameOver v" "winner (winnerInfo v) = Null"
    by blast
  show ?thesis
  proof (cases "scoreDeps g = (False, Null)")
    case True
    then have "g\<lparr>scoreDeps := (False, Null)\<rparr> = g" by (cases g) simp
    with v n True show ?thesis by (simp add: commit_def Let_def)
  next
    case False
    with v n show ?thesis by (auto simp: commit_def Let_def scoreEffect_def)
  qed
qed

text \<open>
  Claim C9. From every state, \<^verbatim>\<open>startNewRound(starter)\<close> leaves the scores unchanged,
  resets the history to a single empty board with the pointer at 0 and sets the starting
  player to \<open>starter\<close>; \<^verbatim>\<open>resetMatch()\<close> sets the three scores to zero and yields an empty
  board with starting player X. The commit that follows either event changes none of this.
\<close>

theorem newRound_keeps_scores_resetMatch_zeroes:
  "scores (startNewRound g starter) = scores g
   \<and> history (startNewRound g starter) = [replicate 9 Null]
   \<and> stepNumber (startNewRound g starter) = 0
   \<and> startingPlayer (startNewRound g starter) = starter
   \<and> nextPlayer (startNewRound g starter) = starter
   \<and> mode (startNewRound g starter) = mode g
   \<and> fire (NewRound starter) g = Inr ((startNewRound g starter)\<lparr>scoreDeps := (False, Null)\<rparr>)
   \<and> scores (resetMatch g) = \<lparr>scoreX = 0, scoreO = 0, draws = 0\<rparr>
   \<and> history (resetMatch g) = [replicate 9 Null]
   \<and> stepNumber (resetMatch g) = 0
   \<and> startingPlayer (resetMatch g) = PX
   \<and> nextPlayer (resetMatch g) = PX
   \<and> mode (resetMatch g) = mode g
   \<and> fire ResetMatch g = Inr ((resetMatch g)\<lparr>scoreDeps := (False, Null)\<rparr>)"
proof -
  have n: "scores (startNewRound g starter) = scores g"
    "history (startNewRound g starter) = [replicate 9 Null]"
    "stepNumber (startNewRound g starter) = 0"
    "startingPlayer (startNewRound g starter) = starter"
    "mode (startNewRound g starter) = mode g"
    by (simp_all add: startNewRound_def)
  have np: "nextPlayer (startNewRound g starter) = starter"
    by (cases starter) (simp_all add: startNewRound_def nextPlayer_def)
  have fn: "fire (NewRound starter) g = Inr ((startNewRound g starter)\<lparr>scoreDeps := (False, Null)\<rparr>)"
    using commit_fresh_round [OF n(2) n(3)] by (simp add: fire_def handler_def)
  have m: "scores (resetMatch g) = \<lparr>scoreX = 0, scoreO = 0, draws = 0\<rparr>"
    "history (resetMatch g) = [replicate 9 Null]"
    "stepNumber (resetMatch g) = 0"
    "startingPlayer (resetMatch g) = PX"
    "nextPlayer (resetMatch g) = PX"
    "mode (resetMatch g) = mode g"
    by (simp_all add: resetMatch_def startNewRound_def nextPlayer_def)
  have fm: "fire ResetMatch g = Inr ((resetMatch g)\<lparr>scoreDeps := (False, Null)\<rparr>)"
    using commit_fresh_round [OF m(2) m(3)] by (simp add: fire_def handler_def)
  from n np fn m fm show ?thesis by (intro conjI)
qed

subsection \<open>History jumps\<close>

lemma clickHistory_in_range:
  assumes "clickHistory g move = Inr g'"
  shows "history g' = history g \<and> 0 \<le> stepNumber g'
         \<and> stepNumber g' < int (length (history g')) \<and> (\<exists>g''. commit g' = Inr g'')"
proof (cases "render g")
  case (Inl e)
  with assms show ?thesis by (simp add: clickHistory_def)
next
  case (Inr v)
  have rng: "history g' = history g \<and> 0 \<le> stepNumber g' \<and> stepNumber g' < int (length (history g'))"
  proof (cases "move \<in> set (historyMoves g)")
    case True
    with Inr assms have "g' = jumpTo g (int move)" by (simp add: clickHistory_def)
    with True show ?thesis by (simp add: jumpTo_def historyMoves_def)
  next
    case False
    with Inr assms have "g' = g" by (simp add: clickHistory_def)
    with render_Inr [OF Inr] show ?thesis by simp
  qed
  then have "0 \<le> stepNumber g'" and "stepNumber g' < int (length (history g'))"
    by blast+
  from render_defined [OF this] obtain w where "render g' = Inr w" ..
  from commit_defined [OF this] rng show ?thesis by blast
qed

text \<open>
  Claim C3, as the code has it. \<^verbatim>\<open>jumpTo(step)\<close> never alters the stored history entries
  and sets \<^verbatim>\<open>stepNumber\<close> to \<open>step\<close> as given, without a range check: for
  \<open>0 \<le> step < length\<close> the pointer is in range afterwards and the event commits; a step
  outside that range is neither rejected nor clamped, the pointer leaves the range and the
  next render throws. The history buttons only issue in-range steps: every step of the
  button list satisfies \<open>0 \<le> step < length\<close>, and a click on a history button leaves the
  history unaltered and the pointer in range.
\<close>

theorem jumpTo_sets_pointer_unchecked:
  "history (jumpTo g step) = history g
   \<and> stepNumber (jumpTo g step) = step
   \<and> scores (jumpTo g step) = scores g
   \<and> (0 \<le> step \<and> step < int (length (history g)) \<longrightarrow>
        0 \<le> stepNumber (jumpTo g step)
        \<and> stepNumber (jumpTo g step) < int (length (history (jumpTo g step)))
        \<and> (\<exists>g'. fire (Jump step) g = Inr g' \<and> history g' = history g \<and> stepNumber g' = step))
   \<and> (\<not> (0 \<le> step \<and> step < int (length (history g))) \<longrightarrow>
        fire (Jump step) g = Inl TypeError)
   \<and> (\<forall>move \<in> set (historyMoves g). 0 \<le> int move \<and> int move < int (length (history g)))
   \<and> (\<forall>g'. clickHistory g move = Inr g' \<longrightarrow>
        history g' = history g \<and> 0 \<le> stepNumber g'
        \<and> stepNumber g' < int (length (history g')) \<and> (\<exists>g''. commit g' = Inr g''))
   \<and> (move \<in> set (historyMoves g) \<and> (\<exists>v. render g = Inr v) \<longrightarrow>
        clickHistory g move = Inr (jumpTo g (int move)))"
proof -
  have j: "history (jumpTo g step) = history g" "stepNumber (jumpTo g step) = step"
    "scores (jumpTo g step) = scores g"
    by (simp_all add: jumpTo_def)
  have inr: "0 \<le> step \<and> step < int (length (history g)) \<longrightarrow>
        0 \<le> stepNumber (jumpTo g step)
        \<and> stepNumber (jumpTo g step) < int (length (history (jumpTo g step)))
        \<and> (\<exists>g'. fire (Jump step) g = Inr g' \<and> history g' = history g \<and> stepNumber g' = step)"
  proof
    assume a: "0 \<le> step \<and> step < int (length (history g))"
    with j have "\<exists>v. render (jumpTo g step) = Inr v"
      by (intro render_defined) simp_all
    then obtain v where "render (jumpTo g step) = Inr v" ..
    from commit_defined [OF this] obtain g' where c: "commit (jumpTo g step) = Inr g'" ..
    from commit_frame [OF c] j have "history g' = history g" "stepNumber g' = step" by simp_all
    moreover from c have "fire (Jump step) g = Inr g'" by (simp add: fire_def handler_def)
    ultimately show "0 \<le> stepNumber (jumpTo g step)
        \<and> stepNumber (jumpTo g step) < int (length (history (jumpTo g step)))
        \<and> (\<exists>g'. fire (Jump step) g = Inr g' \<and> history g' = history g \<and> stepNumber g' = step)"
      using a j by auto
  qed
  have out: "\<not> (0 \<le> step \<and> step < int (length (history g))) \<longrightarrow>
        fire (Jump step) g = Inl TypeError"
    by (auto simp: fire_def handler_def commit_def render_def js_index_def jumpTo_def)
  have btn: "\<forall>move \<in> set (historyMoves g). 0 \<le> int move \<and> int move < int (length (history g))"
    by (simp add: historyMoves_def)
  have clk: "\<forall>g'. clickHistory g move = Inr g' \<longrightarrow>
        history g' = history g \<and> 0 \<le> stepNumber g'
        \<and> stepNumber g' < int (length (history g')) \<and> (\<exists>g''. commit g' = Inr g'')"
    using clickHistory_in_range [of g move] by blast
  have iss: "move \<in> set (historyMoves g) \<and> (\<exists>v. render g = Inr v) \<longrightarrow>
        clickHistory g move = Inr (jumpTo g (int move))"
    by (auto simp: clickHistory_def)
  from j inr out btn clk iss show ?thesis by (intro conjI)
qed

theorem jumpTo_sets_pointer_unchecked_witness:
  "(0::int) \<le> 2 \<and> 2 < int (length (history rewound))
   \<and> stepNumber (jumpTo rewound 2) = 2
   \<and> stepNumber (jumpTo rewound 2) < int (length (history (jumpTo rewound 2)))
   \<and> (\<exists>g'. fire (Jump 2) rewound = Inr g' \<and> history g' = history rewound \<and> stepNumber g' = 2)
   \<and> \<not> (0 \<le> (7::int) \<and> 7 < int (length (history rewound)))
   \<and> fire (Jump 7) rewound = Inl TypeError
   \<and> historyMoves rewound = [0, 1, 2, 3]
   \<and> 3 \<in> set (historyMoves rewound)
   \<and> 0 \<le> int 3 \<and> int 3 < int (length (history rewound))
   \<and> render rewound = Inr rewound_view
   \<and> clickHistory rewound 3 = Inr (jumpTo rewound (int 3))
   \<and> history (jumpTo rewound (int 3)) = history rewound
   \<and> 0 \<le> stepNumber (jumpTo rewound (int 3))
   \<and> stepNumber (jumpTo rewound (int 3)) < int (length (history (jumpTo rewound (int 3))))
   \<and> (\<exists>g''. commit (jumpTo rewound (int 3)) = Inr g'')"
proof -
  have a: "(0::int) \<le> 2 \<and> 2 < int (length (history rewound))"
    by (simp add: rewound_def)
  have b: "\<not> (0 \<le> (7::int) \<and> 7 < int (length (history rewound)))"
    by (simp add: rewound_def)
  from jumpTo_sets_pointer_unchecked [of rewound 2] a
  have c: "stepNumber (jumpTo rewound 2) = 2"
    "stepNumber (jumpTo rewound 2) < int (length (history (jumpTo rewound 2)))"
    "\<exists>g'. fire (Jump 2) rewound = Inr g' \<and> history g' = history rewound \<and> stepNumber g' = 2"
    by blast+
  from jumpTo_sets_pointer_unchecked [of rewound 7] b
  have d: "fire (Jump 7) rewound = Inl TypeError"
    by blast
  have hm: "historyMoves rewound = [0, 1, 2, 3]"
    by code_simp
  then have m: "3 \<in> set (historyMoves rewound)"
    by simp
  have rv: "render rewound = Inr rewound_view"
    by code_simp
  then have ex: "\<exists>v. render rewound = Inr v" ..
  note T = jumpTo_sets_pointer_unchecked [of rewound 0 3]
  from T m have r3: "0 \<le> int 3 \<and> int 3 < int (length (history rewound))"
    by blast
  from T m ex have ck: "clickHistory rewound 3 = Inr (jumpTo rewound (int 3))"
    by blast
  from T ck have e: "history (jumpTo rewound (int 3)) = history rewound"
    "0 \<le> stepNumber (jumpTo rewound (int 3))"
    "stepNumber (jumpTo rewound (int 3)) < int (length (history (jumpTo rewound (int 3))))"
    "\<exists>g''. commit (jumpTo rewound (int 3)) = Inr g''"
    by blast+
  from a b c d have first: "(0::int) \<le> 2 \<and> 2 < int (length (history rewound))
   \<and> stepNumber (jumpTo rewound 2) = 2
   \<and> stepNumber (jumpTo rewound 2) < int (length (history (jumpTo rewound 2)))
   \<and> (\<exists>g'. fire (Jump 2) rewound = Inr g' \<and> history g' = history rewound \<and> stepNumber g' = 2)
   \<and> \<not> (0 \<le> (7::int) \<and> 7 < int (length (history rewound)))
   \<and> fire (Jump 7) rewound = Inl TypeError"
    by simp
  from first hm m r3 rv ck e show ?thesis by (intro conjI) simp_all
qed

text \<open>
  The claim as stated fails: an out-of-range step is not rejected. In the mounted state
  (history of length 1) \<^verbatim>\<open>jumpTo(5)\<close> leaves the pointer at 5.
\<close>

theorem jumpTo_out_of_range_counterexample:
  "length (history init) = 1
   \<and> stepNumber (jumpTo init 5) = 5
   \<and> \<not> (0 \<le> stepNumber (jumpTo init 5)
         \<and> stepNumber (jumpTo init 5) < int (length (history (jumpTo init 5))))
   \<and> jumpTo init 5 \<noteq> init
   \<and> fire (Jump 5) init = Inl TypeError"
  by (simp add: jumpTo_def init_def fire_def handler_def commit_def render_def js_index_def)

subsection \<open>Moves while the CPU is to move\<close>

text \<open>
  The second disjunct of the board's \<^verbatim>\<open>disabled\<close> property requires both the CPU's turn
  and \<^verbatim>\<open>!isCpuTurn\<close>, which only a finished game satisfies: the board is disabled
  exactly when the game is over.
\<close>

lemma boardDisabled_gameOver:
  assumes "render g = Inr v"
  shows "boardDisabled g v = gameOver v"
  using assms
  by (cases "js_index (history g) (stepNumber g)")
     (auto simp: render_def boardDisabled_def Let_def)

lemma handlePlay_on_cpu_turn:
  assumes "render g = Inr v" and "isCpuTurn v" and "get_cell (current v) i = Null"
  shows "\<exists>g'. handlePlay g i = Inr g' \<and> g' \<noteq> g
           \<and> get_cell (history g' ! nat (stepNumber g')) i = Mark (nextPlayer g)"
proof -
  from assms(1,2) have no: "\<not> gameOver v"
    by (cases "js_index (history g) (stepNumber g)") (auto simp: render_def Let_def)
  from assms(3) have f: "\<not> truthy (get_cell (current v) i)"
    by (simp add: truthy_def)
  from render_Inr [OF assms(1)] have r: "0 \<le> stepNumber g" "stepNumber g < int (length (history g))"
    by simp_all
  let ?g' = "g\<lparr>history := take (nat (stepNumber g) + 1) (history g)
                @ [array_set (current v) i (Mark (nextPlayer g))],
            stepNumber := stepNumber g + 1, xIsNext := \<not> xIsNext g\<rparr>"
  have hp: "handlePlay g i = Inr ?g'"
    by (rule handlePlay_accepted [OF assms(1) f no])
  have ne: "?g' \<noteq> g"
  proof
    assume "?g' = g"
    then have "xIsNext ?g' = xIsNext g" by simp
    then show False by simp
  qed
  from r have "nat (stepNumber g + 1) = nat (stepNumber g) + 1"
    by (simp add: nat_add_distrib)
  with r have "history ?g' ! nat (stepNumber ?g') = array_set (current v) i (Mark (nextPlayer g))"
    by (simp add: nth_append)
  then have "get_cell (history ?g' ! nat (stepNumber ?g')) i = Mark (nextPlayer g)"
    by (simp add: get_cell_def array_set_def nth_append)
  with hp ne show ?thesis by blast
qed

text \<open>
  Claim C2, at the failing input. In CPU mode with X starting, after the human's move at
  cell 0 it is the CPU's turn. A call \<^verbatim>\<open>handlePlay(1)\<close>, and likewise a click on square 1
  (which is not disabled), is accepted: it places the CPU's mark O on cell 1, appends to
  the history and passes the turn back to X.
\<close>

theorem handlePlay_accepted_on_cpu_turn:
  "run [SetMode CPU, Click 0] init = Inr cpu_thinking
   \<and> cpuToMove cpu_thinking
   \<and> handlePlay cpu_thinking 1 =
       Inr (cpu_thinking\<lparr>history := history cpu_thinking
              @ [[Mark PX, Mark PO, Null, Null, Null, Null, Null, Null, Null]],
            stepNumber := 2, xIsNext := True\<rparr>)
   \<and> clickSquare cpu_thinking 1 = handlePlay cpu_thinking 1
   \<and> fire (Click 1) cpu_thinking = handlePlay cpu_thinking 1
   \<and> fire (Click 1) cpu_thinking \<noteq> Inr cpu_thinking"
  by code_simp

subsection \<open>Scoring\<close>

text \<open>
  Claim C1, at the failing input. X plays 0, O plays 3, X plays 1, O plays 4, X plays 2: X
  wins and the score of X becomes 1. Jumping to step 0 and back to step 5, the terminal
  snapshot of the same round, runs the score effect again: the score of X becomes 2.
\<close>

theorem revisited_win_scored_twice:
  "map_sum id scores (run [Click 0, Click 3, Click 1, Click 4, Click 2] init)
     = Inr \<lparr>scoreX = 1, scoreO = 0, draws = 0\<rparr>
   \<and> map_sum id scores (run [Click 0, Click 3, Click 1, Click 4, Click 2, Jump 0] init)
     = Inr \<lparr>scoreX = 1, scoreO = 0, draws = 0\<rparr>
   \<and> map_sum id scores (run [Click 0, Click 3, Click 1, Click 4, Click 2, Jump 0, Jump 5] init)
     = Inr \<lparr>scoreX = 2, scoreO = 0, draws = 0\<rparr>
   \<and> map_sum id history (run [Click 0, Click 3, Click 1, Click 4, Click 2, Jump 0, Jump 5] init)
     = map_sum id history (run [Click 0, Click 3, Click 1, Click 4, Click 2] init)"
  by code_simp

end
